theory Spec2Isabelle
  imports Main "HOL-Library.Multiset"
begin

section \<open>Data model of \<open>data_processing.py\<close>\<close>

text \<open>
  A transaction table is an ordered sequence of rows; position in the list is the
  chronological position. A row has at least the columns \<open>customer_id\<close> and
  \<open>article_id\<close>; further columns live in the extension of the record scheme.
  Identifiers are opaque, so both column types are type variables.
\<close>

record ('c, 'a) transaction =
  customer_id :: 'c
  article_id :: 'a

text \<open>A row of the labelled table: the two identifier columns and \<open>label\<close>.\<close>

record ('c, 'a) labeled = "('c, 'a) transaction" +
  label :: int

text \<open>The exceptions the code can raise.\<close>

datatype error = ValueError | KeyError

subsection \<open>Python slicing\<close>

text \<open>
  \<open>xs[a:b]\<close> and \<open>df.iloc[a:b]\<close>: a negative bound counts from the end, and every
  bound is clipped to the range \<open>0 .. len\<close>. \<open>xs[a:]\<close> is the same with the upper
  bound at \<open>len\<close>.
\<close>

definition clip_index :: "int \<Rightarrow> int \<Rightarrow> int" where
  "clip_index n i = (if i < 0 then max 0 (i + n) else min i n)"

definition iloc :: "int \<Rightarrow> int \<Rightarrow> 'r list \<Rightarrow> 'r list" where
  "iloc a b xs =
     (let n = int (length xs); lo = clip_index n a; hi = clip_index n b
      in take (nat (hi - lo)) (drop (nat lo) xs))"

definition iloc_from :: "int \<Rightarrow> 'r list \<Rightarrow> 'r list" where
  "iloc_from a xs = drop (nat (clip_index (int (length xs)) a)) xs"

section \<open>The cold-start-safe splitter\<close>

text \<open>
  The body of the \<open>while\<close> loop of \<open>train_test_no_coldstart\<close>, for a given value of
  \<open>candidate_start\<close>: the training block, the candidate test pool and the pool
  filtered to the identifiers seen in training.
\<close>

definition train_block ::
  "('c, 'a, 'z) transaction_scheme list \<Rightarrow> int \<Rightarrow> int \<Rightarrow> ('c, 'a, 'z) transaction_scheme list" where
  "train_block transactions factor candidate_start =
     iloc (candidate_start - 5 * factor) candidate_start transactions"

definition candidate_test ::
  "('c, 'a, 'z) transaction_scheme list \<Rightarrow> int \<Rightarrow> ('c, 'a, 'z) transaction_scheme list" where
  "candidate_test transactions candidate_start =
     iloc candidate_start (int (length transactions)) transactions"

definition valid_test ::
  "('c, 'a, 'z) transaction_scheme list \<Rightarrow> int \<Rightarrow> int \<Rightarrow> ('c, 'a, 'z) transaction_scheme list" where
  "valid_test transactions factor candidate_start =
     (let train = train_block transactions factor candidate_start;
          valid_customers = set (map customer_id train);
          valid_articles = set (map article_id train)
      in filter (\<lambda>r. customer_id r \<in> valid_customers \<and> article_id r \<in> valid_articles)
           (candidate_test transactions candidate_start))"

text \<open>
  How the loop ends: by the \<open>return\<close> inside it, or by its condition becoming false.
  Both carry the value \<open>candidate_start\<close> has at that moment.
\<close>

datatype ('c, 'a, 'z) loop_end =
  Returned int "('c, 'a, 'z) transaction_scheme list" "('c, 'a, 'z) transaction_scheme list"
| Exhausted int

function split_loop ::
  "('c, 'a, 'z) transaction_scheme list \<Rightarrow> int \<Rightarrow> int \<Rightarrow> ('c, 'a, 'z) loop_end" where
  "split_loop transactions factor candidate_start =
     (if candidate_start \<ge> 5 * factor then
        if int (length (valid_test transactions factor candidate_start)) \<ge> factor then
          Returned candidate_start
            (train_block transactions factor candidate_start)
            (iloc_from (- factor) (valid_test transactions factor candidate_start))
        else split_loop transactions factor (candidate_start - factor)
      else Exhausted candidate_start)"
  by pat_completeness auto
termination
  by (relation "measure (\<lambda>(transactions, factor, candidate_start).
        nat (candidate_start - 5 * factor + 1))") auto

declare split_loop.simps [simp del]

definition train_test_no_coldstart ::
  "('c, 'a, 'z) transaction_scheme list \<Rightarrow> int \<Rightarrow>
     error + (('c, 'a, 'z) transaction_scheme list \<times> ('c, 'a, 'z) transaction_scheme list)" where
  "train_test_no_coldstart transactions factor =
     (let n = int (length transactions) in
      case split_loop transactions factor (n - factor) of
        Returned c train test \<Rightarrow> Inr (train, test)
      | Exhausted c \<Rightarrow> Inl ValueError)"

section \<open>The balanced negative-sampling labeler\<close>

subsection \<open>The library operations the labeler calls\<close>

text \<open>
  \<open>get_labels_no_coldstart\<close> draws its randomness from NumPy and pandas, and turns a
  Python set into a list. These are not code of the repository; they are parameters of
  the model. \<open>'g\<close> is the state of a NumPy generator:
  \<^item> \<open>seed_state s\<close> is the generator state that \<open>np.random.seed(s)\<close> installs for a seed
    \<open>s\<close> it accepts, which is also the state of a fresh \<open>RandomState(s)\<close>;
  \<^item> \<open>rand_choice g xs\<close> is \<open>np.random.choice(xs)\<close> run on state \<open>g\<close>: the element drawn
    and the state afterwards;
  \<^item> \<open>rand_sample g n df\<close> draws \<open>n\<close> rows of \<open>df\<close> without replacement with a generator
    in state \<open>g\<close>: the rows drawn and the state afterwards;
  \<^item> \<open>list_of S\<close> is \<open>list(S)\<close> for a set \<open>S\<close>.
\<close>

record ('g, 'a, 'r) library =
  seed_state :: "int \<Rightarrow> 'g"
  rand_choice :: "'g \<Rightarrow> 'a list \<Rightarrow> 'a \<times> 'g"
  rand_sample :: "'g \<Rightarrow> nat \<Rightarrow> 'r list \<Rightarrow> 'r list \<times> 'g"
  list_of :: "'a set \<Rightarrow> 'a list"

text \<open>
  What the labeler relies on from these operations: a choice from a non-empty list is an
  element of it, a sample of \<open>n \<le> len\<close> rows has \<open>n\<close> rows and takes no row more often
  than the table holds it, and \<open>list(S)\<close> has exactly the elements of \<open>S\<close>.
\<close>

definition library_ok :: "('g, 'a, 'r) library \<Rightarrow> bool" where
  "library_ok L \<longleftrightarrow>
     (\<forall>g xs. xs \<noteq> [] \<longrightarrow> fst (rand_choice L g xs) \<in> set xs) \<and>
     (\<forall>g n df. n \<le> length df \<longrightarrow>
        length (fst (rand_sample L g n df)) = n \<and> mset (fst (rand_sample L g n df)) \<subseteq># mset df) \<and>
     (\<forall>S. finite S \<longrightarrow> set (list_of L S) = S)"

text \<open>
  Seeding with an integer, as \<open>np.random.seed(s)\<close> and \<open>RandomState(s)\<close> do it: a seed
  outside \<open>0 .. 2**32 - 1\<close> is a \<open>ValueError\<close>.
\<close>

definition seed_generator :: "('g, 'a, 'r) library \<Rightarrow> int \<Rightarrow> error + 'g" where
  "seed_generator L s =
     (if 0 \<le> s \<and> s < 2 ^ 32 then Inr (seed_state L s) else Inl ValueError)"

text \<open>
  \<open>df.sample(n=n, random_state=random_state)\<close>: with \<open>random_state=None\<close> pandas draws from
  the global generator and advances it; with an integer it draws from a fresh
  \<open>RandomState(random_state)\<close>, which can fail as above, and leaves the global generator
  alone. More rows than the table has is a \<open>ValueError\<close>.
\<close>

definition df_sample ::
  "('g, 'a, 'r) library \<Rightarrow> int option \<Rightarrow> 'g \<Rightarrow> nat \<Rightarrow> 'r list \<Rightarrow> error + ('r list \<times> 'g)" where
  "df_sample L random_state g n df =
     (case random_state of
        None \<Rightarrow>
          if n > length df then Inl ValueError else Inr (rand_sample L g n df)
      | Some s \<Rightarrow>
          (case seed_generator L s of
             Inl e \<Rightarrow> Inl e
           | Inr h \<Rightarrow>
               if n > length df then Inl ValueError
               else Inr (fst (rand_sample L h n df), g)))"

subsection \<open>The labeler\<close>

text \<open>\<open>pos_df\<close>: the two identifier columns of every input row, with \<open>label = 1\<close>.\<close>

definition pos_rows :: "('c, 'a, 'z) transaction_scheme list \<Rightarrow> ('c, 'a) labeled list" where
  "pos_rows train_transactions =
     map (\<lambda>r. \<lparr>customer_id = customer_id r, article_id = article_id r, label = 1\<rparr>)
       train_transactions"

text \<open>
  \<open>pos_df.groupby('customer_id')['article_id'].agg(set).to_dict()\<close>: a dictionary whose
  keys are the customers of \<open>pos_df\<close>.
\<close>

definition user_to_articles :: "('c, 'a) labeled list \<Rightarrow> ('c \<rightharpoonup> 'a set)" where
  "user_to_articles pos_df =
     (\<lambda>u. if u \<in> set (map customer_id pos_df)
          then Some (set (map article_id (filter (\<lambda>r. customer_id r = u) pos_df)))
          else None)"

text \<open>
  The \<open>for\<close> loop over \<open>pos_df.iterrows()\<close>; \<open>g\<close> is the state of the global generator and
  \<open>neg_rows\<close> the list built so far. A missing dictionary key is a \<open>KeyError\<close>.
\<close>

fun neg_loop ::
  "('g, 'a, ('c, 'a) labeled) library \<Rightarrow> ('c \<rightharpoonup> 'a set) \<Rightarrow> 'a set \<Rightarrow> ('c, 'a) labeled list \<Rightarrow>
     'g \<Rightarrow> ('c, 'a) labeled list \<Rightarrow> error + (('c, 'a) labeled list \<times> 'g)" where
  "neg_loop L u2a all_articles [] g neg_rows = Inr (neg_rows, g)"
| "neg_loop L u2a all_articles (row # rest) g neg_rows =
     (let user = customer_id row in
      case u2a user of
        None \<Rightarrow> Inl KeyError
      | Some arts \<Rightarrow>
          (let candidate_articles = list_of L (all_articles - arts) in
           if candidate_articles \<noteq> [] then
             (let (neg_article, g') = rand_choice L g candidate_articles in
              neg_loop L u2a all_articles rest g'
                (neg_rows @ [\<lparr>customer_id = user, article_id = neg_article, label = 0\<rparr>]))
           else neg_loop L u2a all_articles rest g neg_rows))"

text \<open>
  Lines 106 to 130: seeding the global generator when a seed is given, which raises
  \<open>ValueError\<close> for a seed NumPy does not accept, then generating the negative rows. The
  result is \<open>neg_df\<close> and the state of the global generator.
\<close>

definition neg_rows_of ::
  "('g, 'a, ('c, 'a) labeled) library \<Rightarrow> ('c, 'a, 'z) transaction_scheme list \<Rightarrow> int option \<Rightarrow> 'g \<Rightarrow>
     error + (('c, 'a) labeled list \<times> 'g)" where
  "neg_rows_of L train_transactions random_state g =
     (case (case random_state of None \<Rightarrow> Inr g | Some s \<Rightarrow> seed_generator L s) of
        Inl e \<Rightarrow> Inl e
      | Inr g0 \<Rightarrow>
          (let pos_df = pos_rows train_transactions;
               all_articles = set (map article_id train_transactions)
           in neg_loop L (user_to_articles pos_df) all_articles pos_df g0 []))"

text \<open>Lines 134 to 142: sampling the larger of the two tables down.\<close>

definition balance ::
  "('g, 'a, ('c, 'a) labeled) library \<Rightarrow> int option \<Rightarrow> ('c, 'a) labeled list \<Rightarrow>
     ('c, 'a) labeled list \<Rightarrow> 'g \<Rightarrow>
     error + (('c, 'a) labeled list \<times> ('c, 'a) labeled list \<times> 'g)" where
  "balance L random_state pos_df neg_df g =
     (let num_pos = length pos_df; num_neg = length neg_df in
      if num_neg < num_pos then
        (case df_sample L random_state g num_neg pos_df of
           Inl e \<Rightarrow> Inl e
         | Inr (pos_df', g') \<Rightarrow> Inr (pos_df', neg_df, g'))
      else if num_pos < num_neg then
        (case df_sample L random_state g num_pos neg_df of
           Inl e \<Rightarrow> Inl e
         | Inr (neg_df', g') \<Rightarrow> Inr (pos_df, neg_df', g'))
      else Inr (pos_df, neg_df, g))"

text \<open>
  The whole function: the labelled table and the state in which the call leaves the global
  generator. \<open>sample(frac=1)\<close> asks for as many rows as the table has.
\<close>

definition get_labels_no_coldstart ::
  "('g, 'a, ('c, 'a) labeled) library \<Rightarrow> ('c, 'a, 'z) transaction_scheme list \<Rightarrow> int option \<Rightarrow> 'g \<Rightarrow>
     error + (('c, 'a) labeled list \<times> 'g)" where
  "get_labels_no_coldstart L train_transactions random_state g =
     (case neg_rows_of L train_transactions random_state g of
        Inl e \<Rightarrow> Inl e
      | Inr (neg_df, g1) \<Rightarrow>
          (case balance L random_state (pos_rows train_transactions) neg_df g1 of
             Inl e \<Rightarrow> Inl e
           | Inr (pos_df, neg_df', g2) \<Rightarrow>
               (let labeled_df = pos_df @ neg_df'
                in df_sample L random_state g2 (length labeled_df) labeled_df)))"

section \<open>Concrete inputs\<close>

text \<open>Tables with natural numbers as identifiers, used to run the definitions.\<close>

definition row :: "nat \<Rightarrow> nat \<Rightarrow> (nat, nat) transaction" where
  "row c a = \<lparr>customer_id = c, article_id = a\<rparr>"

text \<open>
  Eight rows whose last row is a cold start: with \<open>factor = 1\<close> the splitter has to widen
  the candidate pool once.
\<close>

definition shop8 :: "(nat, nat) transaction list" where
  "shop8 = [row 1 10, row 2 20, row 1 20, row 2 10, row 1 10, row 2 20, row 1 10, row 9 90]"

text \<open>Thirteen rows with pairwise different customers and articles: no window is valid.\<close>

definition unique13 :: "(nat, nat) transaction list" where
  "unique13 = map (\<lambda>i. row i i) [0 ..< 13]"

text \<open>Two customers and three articles; customer 2 has bought every article.\<close>

definition basket :: "(nat, nat) transaction list" where
  "basket = [row 1 10, row 2 10, row 2 20, row 1 20, row 2 30]"

text \<open>
  A small deterministic generator to run the labeler with: the state is a counter, a
  choice takes the element at the counter's position, a sample takes the first rows of
  the table rotated by the counter, and \<open>list(S)\<close> is in ascending order.
\<close>

definition counter_library :: "(nat, nat, (nat, nat) labeled) library" where
  "counter_library =
     \<lparr>seed_state = (\<lambda>s. nat \<bar>s\<bar>),
      rand_choice = (\<lambda>g xs. (xs ! (g mod length xs), Suc g)),
      rand_sample = (\<lambda>g n df. (take n (rotate g df), g + n)),
      list_of = sorted_list_of_set\<rparr>"

text \<open>What the splitter returns on \<open>shop8\<close> with \<open>factor = 1\<close>.\<close>

definition shop8_train :: "(nat, nat) transaction list" where
  "shop8_train = [row 2 20, row 1 20, row 2 10, row 1 10, row 2 20]"

text \<open>
  A labelled row, and what the labeler returns on \<open>basket\<close> with seed 3 and this
  generator.
\<close>

definition lrow :: "nat \<Rightarrow> nat \<Rightarrow> int \<Rightarrow> (nat, nat) labeled" where
  "lrow c a l = \<lparr>customer_id = c, article_id = a, label = l\<rparr>"

definition basket_out :: "(nat, nat) labeled list" where
  "basket_out = [lrow 1 30 0, lrow 1 20 1, lrow 2 30 1, lrow 1 30 0]"

section \<open>Properties of the splitter\<close>



lemma iloc_inner:
  "0 \<le> a \<Longrightarrow> a \<le> b \<Longrightarrow> b \<le> int (length xs) \<Longrightarrow>
     iloc a b xs = take (nat (b - a)) (drop (nat a) xs)"
  by (simp add: iloc_def clip_index_def Let_def)

lemma train_block_eq:
  "0 < factor \<Longrightarrow> 5 * factor \<le> c \<Longrightarrow> c \<le> int (length xs) \<Longrightarrow>
     train_block xs factor c = take (nat (5 * factor)) (drop (nat (c - 5 * factor)) xs)"
  by (simp add: train_block_def iloc_inner)

lemma train_block_length:
  "0 < factor \<Longrightarrow> 5 * factor \<le> c \<Longrightarrow> c \<le> int (length xs) \<Longrightarrow>
     int (length (train_block xs factor c)) = 5 * factor"
  by (simp add: train_block_eq)

lemma candidate_test_eq:
  "0 \<le> c \<Longrightarrow> c \<le> int (length xs) \<Longrightarrow> candidate_test xs c = drop (nat c) xs"
  by (simp add: candidate_test_def iloc_inner)

lemma iloc_from_last:
  "0 < factor \<Longrightarrow> factor \<le> int (length ys) \<Longrightarrow>
     iloc_from (- factor) ys = drop (length ys - nat factor) ys"
  by (simp add: iloc_from_def clip_index_def nat_diff_distrib')

lemma iloc_from_subset: "set (iloc_from a ys) \<subseteq> set ys"
  by (simp add: iloc_from_def set_drop_subset)

lemma split_loop_Returned:
  "split_loop xs factor cs = Returned c tr te \<Longrightarrow>
     5 * factor \<le> c \<and> c \<le> cs \<and> factor \<le> int (length (valid_test xs factor c)) \<and>
     tr = train_block xs factor c \<and> te = iloc_from (- factor) (valid_test xs factor c)"
proof (induction xs factor cs rule: split_loop.induct)
  case (1 xs factor cs)
  show ?case
  proof (cases "5 * factor \<le> cs \<and> \<not> factor \<le> int (length (valid_test xs factor cs))")
    case True
    then have "split_loop xs factor (cs - factor) = Returned c tr te"
      using "1.prems" by (simp add: split_loop.simps[of xs factor cs])
    moreover have "0 < factor" using True by linarith
    ultimately show ?thesis using "1.IH" True by force
  next
    case False
    then show ?thesis using "1.prems"
      by (auto simp: split_loop.simps[of xs factor cs] split: if_splits)
  qed
qed

lemma split_loop_Exhausted:
  "split_loop xs factor cs = Exhausted c \<Longrightarrow> 0 < factor \<Longrightarrow>
     c < 5 * factor \<and>
     (5 * factor \<le> cs \<longrightarrow>
        5 * factor \<le> c + factor \<and> int (length (valid_test xs factor (c + factor))) < factor) \<and>
     (\<exists>k. c = cs - int k * factor)"
proof (induction xs factor cs rule: split_loop.induct)
  case (1 xs factor cs)
  show ?case
  proof (cases "5 * factor \<le> cs")
    case True
    then have ne: "\<not> factor \<le> int (length (valid_test xs factor cs))"
      and rec: "split_loop xs factor (cs - factor) = Exhausted c"
      using "1.prems" by (auto simp: split_loop.simps[of xs factor cs] split: if_splits)
    from "1.IH"[OF True ne rec "1.prems"(2)]
    obtain k where c: "c < 5 * factor"
      "5 * factor \<le> cs - factor \<longrightarrow>
         5 * factor \<le> c + factor \<and> int (length (valid_test xs factor (c + factor))) < factor"
      "c = cs - factor - int k * factor" by blast
    have "c = cs - int (Suc k) * factor" using c(3) by (simp add: algebra_simps)
    moreover have
      "5 * factor \<le> c + factor \<and> int (length (valid_test xs factor (c + factor))) < factor"
    proof (cases "5 * factor \<le> cs - factor")
      case True then show ?thesis using c(2) by simp
    next
      case False
      then have "split_loop xs factor (cs - factor) = Exhausted (cs - factor)"
        by (simp add: split_loop.simps[of xs factor "cs - factor"])
      then have "c = cs - factor" using rec by simp
      then show ?thesis using True ne by simp
    qed
    ultimately show ?thesis using c(1) by blast
  next
    case False
    then have "c = cs" using "1.prems" by (simp add: split_loop.simps[of xs factor cs])
    then show ?thesis using False by (auto intro: exI[of _ 0])
  qed
qed

lemma split_loop_Exhausted_iff:
  "0 < factor \<Longrightarrow>
   (\<exists>c. split_loop xs factor cs = Exhausted c) \<longleftrightarrow>
   (\<forall>k::nat. 5 * factor \<le> cs - int k * factor \<longrightarrow>
       int (length (valid_test xs factor (cs - int k * factor))) < factor)"
proof (induction xs factor cs rule: split_loop.induct)
  case (1 xs factor cs)
  show ?case
  proof (cases "5 * factor \<le> cs")
    case False
    have "\<And>k::nat. cs - int k * factor \<le> cs" using "1.prems" by simp
    then have "\<And>k::nat. \<not> 5 * factor \<le> cs - int k * factor" using False by (meson order_trans)
    then show ?thesis using False by (simp add: split_loop.simps[of xs factor cs])
  next
    case True
    show ?thesis
    proof (cases "factor \<le> int (length (valid_test xs factor cs))")
      case suff: True
      then have "\<not> (\<exists>c. split_loop xs factor cs = Exhausted c)" using True
        by (simp add: split_loop.simps[of xs factor cs])
      moreover have "\<not> (\<forall>k::nat. 5 * factor \<le> cs - int k * factor \<longrightarrow>
          int (length (valid_test xs factor (cs - int k * factor))) < factor)"
        using suff True by (auto intro: exI[of _ 0])
      ultimately show ?thesis by blast
    next
      case insuff: False
      have step: "split_loop xs factor cs = split_loop xs factor (cs - factor)"
        using True insuff by (simp add: split_loop.simps[of xs factor cs])
      have sh: "\<And>k::nat. cs - factor - int k * factor = cs - int (Suc k) * factor"
        by (simp add: algebra_simps)
      have "(\<forall>k::nat. 5 * factor \<le> cs - int k * factor \<longrightarrow>
          int (length (valid_test xs factor (cs - int k * factor))) < factor) \<longleftrightarrow>
        (\<forall>k::nat. 5 * factor \<le> cs - factor - int k * factor \<longrightarrow>
          int (length (valid_test xs factor (cs - factor - int k * factor))) < factor)"
        (is "?L \<longleftrightarrow> ?R")
      proof
        assume l: ?L
        show ?R unfolding sh using l by blast
      next
        assume r: ?R
        show ?L
        proof (intro allI impI)
          fix k :: nat assume h: "5 * factor \<le> cs - int k * factor"
          show "int (length (valid_test xs factor (cs - int k * factor))) < factor"
          proof (cases k)
            case 0 then show ?thesis using insuff by simp
          next
            case (Suc j)
            then show ?thesis using r h unfolding sh by blast
          qed
        qed
      qed
      then show ?thesis using "1.IH"[OF True insuff "1.prems"] step by simp
    qed
  qed
qed


lemma split_loop_total:
  "(\<exists>c tr te. split_loop xs factor cs = Returned c tr te) \<or> (\<exists>c. split_loop xs factor cs = Exhausted c)"
  by (cases "split_loop xs factor cs") auto

lemma no_coldstart_Inr:
  "train_test_no_coldstart xs factor = Inr (train, test) \<longleftrightarrow>
     (\<exists>c. split_loop xs factor (int (length xs) - factor) = Returned c train test)"
  by (auto simp: train_test_no_coldstart_def Let_def split: loop_end.splits)

lemma no_coldstart_Inl:
  "train_test_no_coldstart xs factor = Inl e \<longleftrightarrow>
     e = ValueError \<and> (\<exists>c. split_loop xs factor (int (length xs) - factor) = Exhausted c)"
  by (auto simp: train_test_no_coldstart_def Let_def split: loop_end.splits)

lemma returned_lengths:
  assumes "0 < factor" and "split_loop xs factor cs = Returned c tr te"
    and "cs \<le> int (length xs)"
  shows "int (length tr) = 5 * factor" and "int (length te) = factor"
proof -
  from split_loop_Returned[OF assms(2)]
  have c: "5 * factor \<le> c" "c \<le> cs"
    and v: "factor \<le> int (length (valid_test xs factor c))"
    and tr: "tr = train_block xs factor c"
    and te: "te = iloc_from (- factor) (valid_test xs factor c)" by simp_all
  show "int (length tr) = 5 * factor"
    using train_block_length[of factor c xs] assms c tr by simp
  show "int (length te) = factor"
    using iloc_from_last[OF assms(1) v] assms(1) v te by simp
qed

lemma shop8_split: "train_test_no_coldstart shop8 1 = Inr (shop8_train, [row 1 10])"
  by code_simp

lemma shop8_loop: "split_loop shop8 1 (int (length shop8) - 1) = Returned 6 shop8_train [row 1 10]"
  by code_simp

lemma unique13_fails: "train_test_no_coldstart unique13 2 = Inl ValueError"
  by code_simp

lemma unique13_loop: "split_loop unique13 2 (int (length unique13) - 2) = Exhausted 9"
  by code_simp

text \<open>
  Claim C1. Whenever \<open>train_test_no_coldstart\<close> returns \<open>(train, test)\<close>, every row of
  \<open>test\<close> has a \<open>customer_id\<close> that occurs in \<open>train\<close> and an \<open>article_id\<close> that occurs
  in \<open>train\<close>. This holds for every \<open>factor\<close>, positive or not.
\<close>

theorem test_rows_seen_in_train:
  assumes "train_test_no_coldstart transactions factor = Inr (train, test)"
    and "r \<in> set test"
  shows "customer_id r \<in> set (map customer_id train) \<and>
         article_id r \<in> set (map article_id train)"
proof -
  from assms(1) obtain c
    where "split_loop transactions factor (int (length transactions) - factor) = Returned c train test"
    unfolding no_coldstart_Inr by blast
  from split_loop_Returned[OF this]
  have tr: "train = train_block transactions factor c"
    and te: "test = iloc_from (- factor) (valid_test transactions factor c)" by simp_all
  have "set test \<subseteq> set (valid_test transactions factor c)"
    unfolding te by (rule iloc_from_subset)
  then have "r \<in> set (valid_test transactions factor c)"
    using assms(2) by (rule subsetD)
  then show ?thesis
    by (simp add: valid_test_def Let_def tr)
qed

theorem test_rows_seen_in_train_witness:
  "train_test_no_coldstart shop8 1 = Inr (shop8_train, [row 1 10]) \<and>
   customer_id (row 1 10) \<in> set (map customer_id shop8_train) \<and>
   article_id (row 1 10) \<in> set (map article_id shop8_train)"
  using test_rows_seen_in_train[OF shop8_split, of "row 1 10"] shop8_split by simp

text \<open>
  Claim C3. For a positive \<open>factor\<close>, whenever \<open>train_test_no_coldstart\<close> returns
  \<open>(train, test)\<close>, \<open>train\<close> has exactly \<open>5 * factor\<close> rows and \<open>test\<close> exactly \<open>factor\<close>.
\<close>

theorem split_sizes:
  assumes "0 < factor"
    and "train_test_no_coldstart transactions factor = Inr (train, test)"
  shows "int (length train) = 5 * factor \<and> int (length test) = factor"
proof -
  from assms(2) obtain c
    where "split_loop transactions factor (int (length transactions) - factor) = Returned c train test"
    unfolding no_coldstart_Inr by blast
  from returned_lengths[OF assms(1) this] assms(1) show ?thesis by simp
qed

theorem split_sizes_witness:
  "(0::int) < 1 \<and> train_test_no_coldstart shop8 1 = Inr (shop8_train, [row 1 10]) \<and>
   int (length shop8_train) = 5 * 1 \<and> int (length [row 1 10]) = 1"
  using split_sizes[OF _ shop8_split] shop8_split by simp

text \<open>
  Claim C4. For a positive \<open>factor\<close>, \<open>train_test_no_coldstart\<close> raises \<open>ValueError\<close>
  exactly when every window the loop can attempt, \<open>candidate_start = n - factor - k * factor\<close>
  with \<open>candidate_start \<ge> 5 * factor\<close>, yields fewer than \<open>factor\<close> valid rows; it does so in
  particular for every table with \<open>n < 5 * factor + factor\<close>; and a returned test set
  always has \<open>factor\<close> rows, never fewer.
\<close>

theorem insufficient_data_error:
  assumes "0 < factor"
  shows "(train_test_no_coldstart transactions factor = Inl ValueError \<longleftrightarrow>
            (\<forall>k::nat. 5 * factor \<le> int (length transactions) - factor - int k * factor \<longrightarrow>
               int (length (valid_test transactions factor
                      (int (length transactions) - factor - int k * factor))) < factor)) \<and>
         (int (length transactions) < 5 * factor + factor \<longrightarrow>
            train_test_no_coldstart transactions factor = Inl ValueError) \<and>
         (\<forall>train test. train_test_no_coldstart transactions factor = Inr (train, test) \<longrightarrow>
            int (length test) = factor)"
proof (intro conjI allI impI)
  show iff: "train_test_no_coldstart transactions factor = Inl ValueError \<longleftrightarrow>
            (\<forall>k::nat. 5 * factor \<le> int (length transactions) - factor - int k * factor \<longrightarrow>
               int (length (valid_test transactions factor
                      (int (length transactions) - factor - int k * factor))) < factor)"
  proof -
    have "train_test_no_coldstart transactions factor = Inl ValueError \<longleftrightarrow>
          (\<exists>c. split_loop transactions factor (int (length transactions) - factor) = Exhausted c)"
      by (simp add: no_coldstart_Inl)
    then show ?thesis
      by (simp only: split_loop_Exhausted_iff[OF assms, of transactions "int (length transactions) - factor"])
  qed
  show "train_test_no_coldstart transactions factor = Inl ValueError"
    if "int (length transactions) < 5 * factor + factor"
  proof -
    have "\<not> 5 * factor \<le> int (length transactions) - factor" using that by simp
    then show ?thesis
      unfolding no_coldstart_Inl
      by (simp add: split_loop.simps[of transactions factor "int (length transactions) - factor"])
  qed
  show "int (length test) = factor"
    if "train_test_no_coldstart transactions factor = Inr (train, test)" for train test
  proof -
    from that obtain c
      where "split_loop transactions factor (int (length transactions) - factor) = Returned c train test"
      unfolding no_coldstart_Inr by blast
    from returned_lengths(2)[OF assms this] assms show ?thesis by simp
  qed
qed

theorem insufficient_data_error_witness:
  "(0::int) < 2 \<and> train_test_no_coldstart unique13 2 = Inl ValueError \<and>
   int (length (valid_test unique13 2 (int (length unique13) - 2 - int 0 * 2))) < 2"
proof -
  have pos: "(0::int) < 2" by simp
  have len: "5 * 2 \<le> int (length unique13) - 2 - int 0 * 2" by (simp add: unique13_def)
  from insufficient_data_error[OF pos, of unique13] unique13_fails
  have "\<forall>k::nat. 5 * 2 \<le> int (length unique13) - 2 - int k * 2 \<longrightarrow>
      int (length (valid_test unique13 2 (int (length unique13) - 2 - int k * 2))) < 2"
    by blast
  then have "int (length (valid_test unique13 2 (int (length unique13) - 2 - int 0 * 2))) < 2"
    using len by blast
  then show ?thesis using unique13_fails by simp
qed

text \<open>
  Claim C9 says that when the search fails on a table of \<open>n \<ge> 5 * factor + factor\<close> rows,
  the last window attempted has \<open>candidate_start = 5 * factor\<close>. The loop leaves with
  \<open>candidate_start\<close> one \<open>factor\<close> below the last window it attempted. On thirteen rows
  with \<open>factor = 2\<close> it leaves with 9: the last window attempted started at 11, not at 10.
\<close>

theorem last_window_counterexample:
  "5 * 2 + 2 \<le> int (length unique13) \<and>
   train_test_no_coldstart unique13 2 = Inl ValueError \<and>
   split_loop unique13 2 (int (length unique13) - 2) = Exhausted 9 \<and>
   (9::int) + 2 \<noteq> 5 * 2"
  using unique13_fails unique13_loop by (simp add: unique13_def)

text \<open>
  Claim C9 as the code has it. For a positive \<open>factor\<close> and \<open>n \<ge> 5 * factor + factor\<close>, when
  the loop leaves with \<open>candidate_start = c\<close> the function raises \<open>ValueError\<close>; the window at
  \<open>c\<close> was not attempted (\<open>c < 5 * factor\<close>), the window at \<open>c + factor\<close> was attempted and
  had too few valid rows, and \<open>c + factor = 5 * factor + n mod factor\<close>. So the last window
  attempted starts at \<open>5 * factor\<close> exactly when \<open>factor\<close> divides \<open>n\<close>.
\<close>

theorem last_window_attempted:
  assumes "0 < factor"
    and "5 * factor + factor \<le> int (length transactions)"
    and "split_loop transactions factor (int (length transactions) - factor) = Exhausted c"
  shows "train_test_no_coldstart transactions factor = Inl ValueError \<and>
         c < 5 * factor \<and> 5 * factor \<le> c + factor \<and>
         int (length (valid_test transactions factor (c + factor))) < factor \<and>
         c + factor = 5 * factor + int (length transactions) mod factor \<and>
         (c + factor = 5 * factor \<longleftrightarrow> factor dvd int (length transactions))"
proof -
  let ?n = "int (length transactions)"
  have start: "5 * factor \<le> ?n - factor" using assms(2) by simp
  from split_loop_Exhausted[OF assms(3) assms(1)] start
  obtain k where c: "c < 5 * factor" "5 * factor \<le> c + factor"
    "int (length (valid_test transactions factor (c + factor))) < factor"
    "c = ?n - factor - int k * factor" by blast
  have "c + factor - 5 * factor = ?n + (- int k - 5) * factor"
    using c(4) by (simp add: algebra_simps)
  then have "(c + factor - 5 * factor) mod factor = ?n mod factor"
    by (simp only: mod_mult_self1)
  moreover have "(c + factor - 5 * factor) mod factor = c + factor - 5 * factor"
    using c(1,2) by (simp add: mod_pos_pos_trivial)
  ultimately have eq: "c + factor = 5 * factor + ?n mod factor" by simp
  have "c + factor = 5 * factor \<longleftrightarrow> factor dvd ?n"
    using eq by (simp add: dvd_eq_mod_eq_0)
  moreover have "train_test_no_coldstart transactions factor = Inl ValueError"
    unfolding no_coldstart_Inl using assms(3) by blast
  ultimately show ?thesis using c eq by simp
qed

theorem last_window_attempted_witness:
  "(0::int) < 2 \<and> 5 * 2 + 2 \<le> int (length unique13) \<and>
   split_loop unique13 2 (int (length unique13) - 2) = Exhausted 9 \<and>
   (9::int) + 2 = 5 * 2 + int (length unique13) mod 2"
  using last_window_attempted[OF _ _ unique13_loop] unique13_loop by (simp add: unique13_def)

subsection \<open>Positions of the returned rows\<close>

lemma drop_filter_suffix:
  "\<exists>m. drop k (filter P xs) = filter P (drop m xs)"
proof (induction xs arbitrary: k)
  case Nil
  show ?case by simp
next
  case (Cons x xs)
  show ?case
  proof (cases "k = 0 \<or> \<not> P x")
    case True
    then show ?thesis
    proof
      assume "k = 0"
      then have "drop k (filter P (x # xs)) = filter P (drop 0 (x # xs))" by simp
      then show ?thesis by blast
    next
      assume "\<not> P x"
      moreover obtain m where "drop k (filter P xs) = filter P (drop m xs)"
        using Cons.IH by blast
      ultimately have "drop k (filter P (x # xs)) = filter P (drop (Suc m) (x # xs))" by simp
      then show ?thesis by blast
    qed
  next
    case False
    then obtain j where k: "k = Suc j" and px: "P x" by (cases k) auto
    obtain m where "drop j (filter P xs) = filter P (drop m xs)"
      using Cons.IH by blast
    then have "drop k (filter P (x # xs)) = filter P (drop (Suc m) (x # xs))"
      using k px by simp
    then show ?thesis by blast
  qed
qed

lemma filter_drop_nths:
  "filter P (drop d xs) = nths xs {i. d \<le> i \<and> i < length xs \<and> P (xs ! i)}"
proof -
  have "filter P (drop d xs) =
        nths (drop d xs) {i. i < length (drop d xs) \<and> P (drop d xs ! i)}"
    by (rule filter_eq_nths)
  also have "\<dots> = nths xs ((+) d ` {i. i < length (drop d xs) \<and> P (drop d xs ! i)})"
    by (rule nths_drop)
  also have "(+) d ` {i. i < length (drop d xs) \<and> P (drop d xs ! i)} =
             {i. d \<le> i \<and> i < length xs \<and> P (xs ! i)}"
  proof (intro set_eqI iffI)
    fix i assume "i \<in> (+) d ` {i. i < length (drop d xs) \<and> P (drop d xs ! i)}"
    then obtain j where "i = d + j" "j < length xs - d" "P (drop d xs ! j)" by auto
    then show "i \<in> {i. d \<le> i \<and> i < length xs \<and> P (xs ! i)}" by simp
  next
    fix i assume "i \<in> {i. d \<le> i \<and> i < length xs \<and> P (xs ! i)}"
    then have i: "d \<le> i" "i < length xs" "P (xs ! i)" by auto
    then have "i - d < length (drop d xs)" "P (drop d xs ! (i - d))" "i = d + (i - d)"
      by simp_all
    then show "i \<in> (+) d ` {i. i < length (drop d xs) \<and> P (drop d xs ! i)}" by blast
  qed
  finally show ?thesis .
qed

lemma take_drop_nths: "take n (drop a xs) = nths xs {a ..< a + n}"
proof -
  have "take n (drop a xs) = nths (drop a xs) {..<n}" by simp
  also have "\<dots> = nths xs ((+) a ` {..<n})" by (rule nths_drop)
  also have "(+) a ` {..<n} = {a ..< a + n}"
  proof (intro set_eqI iffI)
    fix i assume "i \<in> (+) a ` {..<n}"
    then show "i \<in> {a ..< a + n}" by auto
  next
    fix i assume "i \<in> {a ..< a + n}"
    then have "i = a + (i - a)" "i - a \<in> {..<n}" by auto
    then show "i \<in> (+) a ` {..<n}" by (rule image_eqI)
  qed
  finally show ?thesis .
qed

lemma returned_positions:
  assumes "0 < factor" and "split_loop xs factor cs = Returned c tr te"
    and "cs \<le> int (length xs)"
  shows "5 * factor \<le> c" and "c \<le> int (length xs)"
    and "tr = train_block xs factor c"
    and "tr = nths xs {nat (c - 5 * factor) ..< nat c}"
    and "\<exists>d. nat c \<le> d \<and>
           te = nths xs {i. d \<le> i \<and> i < length xs \<and>
                  customer_id (xs ! i) \<in> set (map customer_id tr) \<and>
                  article_id (xs ! i) \<in> set (map article_id tr)}"
proof -
  from split_loop_Returned[OF assms(2)]
  have c: "5 * factor \<le> c" "c \<le> cs"
    and v: "factor \<le> int (length (valid_test xs factor c))"
    and tr: "tr = train_block xs factor c"
    and te: "te = iloc_from (- factor) (valid_test xs factor c)" by simp_all
  show "5 * factor \<le> c" by (rule c(1))
  show cn: "c \<le> int (length xs)" using c(2) assms(3) by simp
  show "tr = train_block xs factor c" by (rule tr)
  have c0: "0 \<le> c" using c(1) assms(1) by simp
  have "tr = take (nat (5 * factor)) (drop (nat (c - 5 * factor)) xs)"
    unfolding tr by (rule train_block_eq[OF assms(1) c(1) cn])
  also have "\<dots> = nths xs {nat (c - 5 * factor) ..< nat (c - 5 * factor) + nat (5 * factor)}"
    by (rule take_drop_nths)
  also have "nat (c - 5 * factor) + nat (5 * factor) = nat c"
    using c(1) assms(1) by simp
  finally show "tr = nths xs {nat (c - 5 * factor) ..< nat c}" .
  let ?P = "\<lambda>r. customer_id r \<in> set (map customer_id tr) \<and>
                 article_id r \<in> set (map article_id tr)"
  have vt: "valid_test xs factor c = filter ?P (drop (nat c) xs)"
    by (simp add: valid_test_def Let_def tr candidate_test_eq[OF c0 cn])
  define k where "k = length (valid_test xs factor c) - nat factor"
  have "te = drop k (valid_test xs factor c)"
    unfolding te k_def by (rule iloc_from_last[OF assms(1) v])
  then have tek: "te = drop k (filter ?P (drop (nat c) xs))"
    by (simp only: vt)
  from drop_filter_suffix[of k ?P "drop (nat c) xs"]
  obtain m where m: "drop k (filter ?P (drop (nat c) xs)) = filter ?P (drop m (drop (nat c) xs))" ..
  have "drop m (drop (nat c) xs) = drop (nat c + m) xs" by (simp add: add.commute)
  then have "te = filter ?P (drop (nat c + m) xs)" using tek m by (simp only:)
  then have "te = nths xs {i. nat c + m \<le> i \<and> i < length xs \<and> ?P (xs ! i)}"
    by (simp only: filter_drop_nths)
  moreover have "nat c \<le> nat c + m" by simp
  ultimately show "\<exists>d. nat c \<le> d \<and>
           te = nths xs {i. d \<le> i \<and> i < length xs \<and>
                  customer_id (xs ! i) \<in> set (map customer_id tr) \<and>
                  article_id (xs ! i) \<in> set (map article_id tr)}"
    by blast
qed


text \<open>
  Claim C8. For a positive \<open>factor\<close>, whenever \<open>train_test_no_coldstart\<close> returns
  \<open>(train, test)\<close>, both tables are the original table restricted to a set of positions,
  in ascending position order: \<open>train\<close> to a contiguous range \<open>lo ..< hi\<close> and \<open>test\<close> to a
  set \<open>B\<close> of positions from \<open>hi\<close> on, so every train position is strictly before every
  test position.
\<close>

theorem split_preserves_order:
  assumes "0 < factor"
    and "train_test_no_coldstart transactions factor = Inr (train, test)"
  shows "\<exists>lo hi B. lo \<le> hi \<and> hi \<le> length transactions \<and>
           B \<subseteq> {hi ..< length transactions} \<and>
           train = nths transactions {lo ..< hi} \<and> test = nths transactions B \<and>
           (\<forall>a \<in> {lo ..< hi}. \<forall>b \<in> B. a < b)"
proof -
  let ?n = "length transactions"
  from assms(2) obtain c
    where loop: "split_loop transactions factor (int ?n - factor) = Returned c train test"
    unfolding no_coldstart_Inr by blast
  have start: "int ?n - factor \<le> int ?n" using assms(1) by simp
  note pos = returned_positions[OF assms(1) loop start]
  from pos(5) obtain d where d: "nat c \<le> d"
    and te: "test = nths transactions {i. d \<le> i \<and> i < ?n \<and>
                  customer_id (transactions ! i) \<in> set (map customer_id train) \<and>
                  article_id (transactions ! i) \<in> set (map article_id train)}"
    by blast
  let ?B = "{i. d \<le> i \<and> i < ?n \<and>
                  customer_id (transactions ! i) \<in> set (map customer_id train) \<and>
                  article_id (transactions ! i) \<in> set (map article_id train)}"
  have "nat (c - 5 * factor) \<le> nat c" using assms(1) by simp
  moreover have "nat c \<le> ?n" using pos(2) by simp
  moreover have "?B \<subseteq> {nat c ..< ?n}" using d by auto
  moreover have "\<forall>a \<in> {nat (c - 5 * factor) ..< nat c}. \<forall>b \<in> ?B. a < b" using d by auto
  ultimately show ?thesis using pos(4) te by blast
qed

theorem split_preserves_order_witness:
  "(0::int) < 1 \<and> train_test_no_coldstart shop8 1 = Inr (shop8_train, [row 1 10]) \<and>
   (\<exists>lo hi B. lo \<le> hi \<and> hi \<le> length shop8 \<and> B \<subseteq> {hi ..< length shop8} \<and>
      shop8_train = nths shop8 {lo ..< hi} \<and> [row 1 10] = nths shop8 B \<and>
      (\<forall>a \<in> {lo ..< hi}. \<forall>b \<in> B. a < b))"
proof -
  have pos: "(0::int) < 1" by simp
  from split_preserves_order[OF pos shop8_split] shop8_split pos show ?thesis by blast
qed

text \<open>
  Claim C5. For a positive \<open>factor\<close>, whenever \<open>train_test_no_coldstart\<close> returns
  \<open>(train, test)\<close>, there is a window start \<open>c\<close> with \<open>train\<close> the training block at \<open>c\<close>, and
  \<open>test\<close> is the table restricted to a set \<open>B\<close> of \<open>factor\<close> positions of the candidate pool
  \<open>c ..< n\<close>, all of them valid (both identifiers occur in \<open>train\<close>), such that every valid
  position of the pool that is not in \<open>B\<close> is before every position in \<open>B\<close>.
\<close>

theorem test_rows_latest_valid:
  assumes "0 < factor"
    and "train_test_no_coldstart transactions factor = Inr (train, test)"
  shows "\<exists>c B. 5 * factor \<le> c \<and> c \<le> int (length transactions) \<and>
           train = train_block transactions factor c \<and>
           B \<subseteq> {nat c ..< length transactions} \<and>
           test = nths transactions B \<and> int (card B) = factor \<and>
           (\<forall>j \<in> B. customer_id (transactions ! j) \<in> set (map customer_id train) \<and>
                    article_id (transactions ! j) \<in> set (map article_id train)) \<and>
           (\<forall>i j. nat c \<le> i \<and> i < length transactions \<and>
                  customer_id (transactions ! i) \<in> set (map customer_id train) \<and>
                  article_id (transactions ! i) \<in> set (map article_id train) \<and>
                  i \<notin> B \<and> j \<in> B \<longrightarrow> i < j)"
proof -
  let ?n = "length transactions"
  from assms(2) obtain c
    where loop: "split_loop transactions factor (int ?n - factor) = Returned c train test"
    unfolding no_coldstart_Inr by blast
  have start: "int ?n - factor \<le> int ?n" using assms(1) by simp
  note pos = returned_positions[OF assms(1) loop start]
  from pos(5) obtain d where d: "nat c \<le> d"
    and te: "test = nths transactions {i. d \<le> i \<and> i < ?n \<and>
                  customer_id (transactions ! i) \<in> set (map customer_id train) \<and>
                  article_id (transactions ! i) \<in> set (map article_id train)}"
    by blast
  define B where "B = {i. d \<le> i \<and> i < ?n \<and>
                  customer_id (transactions ! i) \<in> set (map customer_id train) \<and>
                  article_id (transactions ! i) \<in> set (map article_id train)}"
  have teB: "test = nths transactions B" using te by (simp only: B_def)
  have sub: "B \<subseteq> {nat c ..< ?n}" using d by (auto simp: B_def)
  have "{i. i < ?n \<and> i \<in> B} = B" by (auto simp: B_def)
  then have "length test = card B" unfolding teB by (simp add: length_nths)
  moreover have "int (length test) = factor"
    by (rule returned_lengths(2)[OF assms(1) loop start])
  ultimately have card: "int (card B) = factor" by simp
  have valid: "\<forall>j \<in> B. customer_id (transactions ! j) \<in> set (map customer_id train) \<and>
                    article_id (transactions ! j) \<in> set (map article_id train)"
    by (simp add: B_def)
  have latest: "\<forall>i j. nat c \<le> i \<and> i < ?n \<and>
                  customer_id (transactions ! i) \<in> set (map customer_id train) \<and>
                  article_id (transactions ! i) \<in> set (map article_id train) \<and>
                  i \<notin> B \<and> j \<in> B \<longrightarrow> i < j"
    by (auto simp: B_def)
  from pos(1) pos(2) pos(3) sub teB card valid latest show ?thesis by blast
qed

theorem test_rows_latest_valid_witness:
  "(0::int) < 1 \<and> train_test_no_coldstart shop8 1 = Inr (shop8_train, [row 1 10]) \<and>
   (\<exists>c B. 5 * 1 \<le> c \<and> c \<le> int (length shop8) \<and>
           shop8_train = train_block shop8 1 c \<and>
           B \<subseteq> {nat c ..< length shop8} \<and>
           [row 1 10] = nths shop8 B \<and> int (card B) = 1 \<and>
           (\<forall>j \<in> B. customer_id (shop8 ! j) \<in> set (map customer_id shop8_train) \<and>
                    article_id (shop8 ! j) \<in> set (map article_id shop8_train)) \<and>
           (\<forall>i j. nat c \<le> i \<and> i < length shop8 \<and>
                  customer_id (shop8 ! i) \<in> set (map customer_id shop8_train) \<and>
                  article_id (shop8 ! i) \<in> set (map article_id shop8_train) \<and>
                  i \<notin> B \<and> j \<in> B \<longrightarrow> i < j))"
proof -
  have pos: "(0::int) < 1" by simp
  from test_rows_latest_valid[OF pos shop8_split] shop8_split pos show ?thesis by blast
qed

section \<open>Properties of the labeler\<close>

subsection \<open>Multisets and the library contract\<close>

lemma mset_sub_same_size:
  fixes A B :: "'x multiset"
  assumes "A \<subseteq># B" and "size A = size B"
  shows "A = B"
proof (rule ccontr)
  assume "A \<noteq> B"
  then have "A \<subset># B" using assms(1) by (simp add: subset_mset.less_le)
  then have "size A < size B" by (rule mset_subset_size)
  then show False using assms(2) by simp
qed

lemma mset_take_sub: "mset (take n xs) \<subseteq># mset xs"
proof -
  have "mset xs = mset (take n xs) + mset (drop n xs)"
    by (metis append_take_drop_id mset_append)
  then show ?thesis by simp
qed

lemma library_okD:
  assumes "library_ok L"
  shows "xs \<noteq> [] \<Longrightarrow> fst (rand_choice L g xs) \<in> set xs"
    and "n \<le> length df \<Longrightarrow> length (fst (rand_sample L g n df)) = n"
    and "n \<le> length df \<Longrightarrow> mset (fst (rand_sample L g n df)) \<subseteq># mset df"
    and "finite S \<Longrightarrow> set (list_of L S) = S"
  using assms unfolding library_ok_def by blast+

lemma mset_rotate_eq: "mset (rotate g xs) = mset xs"
proof -
  have "mset (rotate g xs) =
        mset (drop (g mod length xs) xs) + mset (take (g mod length xs) xs)"
    by (simp add: rotate_drop_take)
  also have "\<dots> = mset (take (g mod length xs) xs) + mset (drop (g mod length xs) xs)"
    by (rule add.commute)
  also have "\<dots> = mset (take (g mod length xs) xs @ drop (g mod length xs) xs)"
    by (rule mset_append[symmetric])
  also have "\<dots> = mset xs" by (simp only: append_take_drop_id)
  finally show ?thesis .
qed

lemma mset_take_rotate_sub: "mset (take n (rotate g df)) \<subseteq># mset df"
proof -
  have "mset (take n (rotate g df)) \<subseteq># mset (rotate g df)" by (rule mset_take_sub)
  then show ?thesis by (simp only: mset_rotate_eq)
qed

lemma counter_library_ok: "library_ok counter_library"
  unfolding library_ok_def counter_library_def
  by (simp add: mset_take_rotate_sub)

lemma df_sample_result:
  assumes "library_ok L" and "df_sample L random_state g n df = Inr (ys, g')"
  shows "length ys = n" and "mset ys \<subseteq># mset df"
proof -
  have "n \<le> length df \<and> (\<exists>h. ys = fst (rand_sample L h n df))"
  proof (cases random_state)
    case None
    then have "n \<le> length df" and "rand_sample L g n df = (ys, g')"
      using assms(2) by (auto simp: df_sample_def split: if_splits)
    then have "n \<le> length df" and "ys = fst (rand_sample L g n df)" by simp_all
    then show ?thesis by blast
  next
    case (Some s)
    then obtain h where h: "seed_generator L s = Inr h"
      using assms(2) by (cases "seed_generator L s") (simp_all add: df_sample_def)
    then have "n \<le> length df" and "ys = fst (rand_sample L h n df)"
      using assms(2) Some by (auto simp: df_sample_def split: if_splits)
    then show ?thesis by blast
  qed
  then obtain h where n: "n \<le> length df" and ys: "ys = fst (rand_sample L h n df)" by blast
  show "length ys = n" unfolding ys by (rule library_okD(2)[OF assms(1) n])
  show "mset ys \<subseteq># mset df" unfolding ys by (rule library_okD(3)[OF assms(1) n])
qed

lemma neg_loop_length:
  "neg_loop L u2a all_articles rows g acc = Inr (negs, g') \<Longrightarrow>
     length negs \<le> length acc + length rows"
proof (induction rows arbitrary: g acc)
  case Nil
  then show ?case by simp
next
  case (Cons r rows)
  from Cons.prems obtain arts where arts: "u2a (customer_id r) = Some arts"
    by (cases "u2a (customer_id r)") (simp_all add: Let_def)
  show ?case
  proof (cases "list_of L (all_articles - arts) = []")
    case True
    then have "neg_loop L u2a all_articles rows g acc = Inr (negs, g')"
      using Cons.prems arts by (simp add: Let_def)
    from Cons.IH[OF this] show ?thesis by simp
  next
    case False
    obtain a g1 where ch: "rand_choice L g (list_of L (all_articles - arts)) = (a, g1)"
      by (cases "rand_choice L g (list_of L (all_articles - arts))")
    have "neg_loop L u2a all_articles rows g1
            (acc @ [\<lparr>customer_id = customer_id r, article_id = a, label = 0\<rparr>]) = Inr (negs, g')"
      using Cons.prems arts False ch by (simp add: Let_def)
    from Cons.IH[OF this] show ?thesis by simp
  qed
qed

lemma neg_loop_labels:
  "neg_loop L u2a all_articles rows g acc = Inr (negs, g') \<Longrightarrow> r \<in> set negs \<Longrightarrow>
     r \<in> set acc \<or> label r = 0"
proof (induction rows arbitrary: g acc)
  case Nil
  then show ?case by simp
next
  case (Cons p rows)
  from Cons.prems(1) obtain arts where arts: "u2a (customer_id p) = Some arts"
    by (cases "u2a (customer_id p)") (simp_all add: Let_def)
  show ?case
  proof (cases "list_of L (all_articles - arts) = []")
    case True
    then have "neg_loop L u2a all_articles rows g acc = Inr (negs, g')"
      using Cons.prems(1) arts by (simp add: Let_def)
    from Cons.IH[OF this Cons.prems(2)] show ?thesis .
  next
    case False
    obtain a g1 where ch: "rand_choice L g (list_of L (all_articles - arts)) = (a, g1)"
      by (cases "rand_choice L g (list_of L (all_articles - arts))")
    have "neg_loop L u2a all_articles rows g1
            (acc @ [\<lparr>customer_id = customer_id p, article_id = a, label = 0\<rparr>]) = Inr (negs, g')"
      using Cons.prems(1) arts False ch by (simp add: Let_def)
    from Cons.IH[OF this Cons.prems(2)] show ?thesis by auto
  qed
qed

lemma neg_loop_articles:
  assumes "library_ok L" and "finite all_articles"
  shows "neg_loop L u2a all_articles rows g acc = Inr (negs, g') \<Longrightarrow> r \<in> set negs \<Longrightarrow>
     r \<in> set acc \<or>
     (\<exists>arts. u2a (customer_id r) = Some arts \<and> article_id r \<in> all_articles - arts)"
proof (induction rows arbitrary: g acc)
  case Nil
  then show ?case by simp
next
  case (Cons p rows)
  from Cons.prems(1) obtain arts where arts: "u2a (customer_id p) = Some arts"
    by (cases "u2a (customer_id p)") (simp_all add: Let_def)
  show ?case
  proof (cases "list_of L (all_articles - arts) = []")
    case True
    then have "neg_loop L u2a all_articles rows g acc = Inr (negs, g')"
      using Cons.prems(1) arts by (simp add: Let_def)
    from Cons.IH[OF this Cons.prems(2)] show ?thesis .
  next
    case False
    obtain a g1 where ch: "rand_choice L g (list_of L (all_articles - arts)) = (a, g1)"
      by (cases "rand_choice L g (list_of L (all_articles - arts))")
    have "a \<in> set (list_of L (all_articles - arts))"
      using library_okD(1)[OF assms(1) False, of g] ch by simp
    then have a: "a \<in> all_articles - arts"
      using library_okD(4)[OF assms(1), of "all_articles - arts"] assms(2) by simp
    have "neg_loop L u2a all_articles rows g1
            (acc @ [\<lparr>customer_id = customer_id p, article_id = a, label = 0\<rparr>]) = Inr (negs, g')"
      using Cons.prems(1) arts False ch by (simp add: Let_def)
    from Cons.IH[OF this Cons.prems(2)] show ?thesis using arts a by auto
  qed
qed

subsection \<open>The phases of the labeler\<close>

lemma pos_rows_length: "length (pos_rows train) = length train"
  by (simp add: pos_rows_def)

lemma pos_rows_label: "r \<in> set (pos_rows train) \<Longrightarrow> label r = 1"
  by (auto simp: pos_rows_def)

lemma pos_rows_articles_of:
  "map article_id (filter (\<lambda>r. customer_id r = u) (pos_rows train)) =
   map article_id (filter (\<lambda>t. customer_id t = u) train)"
  by (induction train) (simp_all add: pos_rows_def)

lemma user_to_articles_Some:
  assumes "user_to_articles (pos_rows train) u = Some arts"
  shows "arts = article_id ` {t \<in> set train. customer_id t = u}"
proof -
  from assms have "arts = set (map article_id (filter (\<lambda>r. customer_id r = u) (pos_rows train)))"
    by (simp add: user_to_articles_def split: if_splits)
  then have "arts = set (map article_id (filter (\<lambda>t. customer_id t = u) train))"
    by (simp only: pos_rows_articles_of)
  then show ?thesis by simp
qed

lemma rejected_seed_raises:
  assumes "s < 0 \<or> 2 ^ 32 \<le> s"
  shows "neg_rows_of L train (Some s) g = Inl ValueError"
    and "get_labels_no_coldstart L train (Some s) g = Inl ValueError"
proof -
  have "seed_generator L s = Inl ValueError"
    using assms by (auto simp: seed_generator_def)
  then show "neg_rows_of L train (Some s) g = Inl ValueError"
    by (simp add: neg_rows_of_def)
  then show "get_labels_no_coldstart L train (Some s) g = Inl ValueError"
    by (simp add: get_labels_no_coldstart_def)
qed

lemma neg_rows_of_loop:
  assumes "neg_rows_of L train random_state g = Inr (negs, g1)"
  shows "\<exists>g0. neg_loop L (user_to_articles (pos_rows train)) (set (map article_id train))
               (pos_rows train) g0 [] = Inr (negs, g1)"
proof (cases "case random_state of None \<Rightarrow> Inr g | Some s \<Rightarrow> seed_generator L s")
  case (Inl e)
  then show ?thesis using assms by (simp add: neg_rows_of_def)
next
  case (Inr g0)
  then have "neg_loop L (user_to_articles (pos_rows train)) (set (map article_id train))
               (pos_rows train) g0 [] = Inr (negs, g1)"
    using assms by (simp add: neg_rows_of_def Let_def)
  then show ?thesis by blast
qed

lemma neg_rows_of_length:
  assumes "neg_rows_of L train random_state g = Inr (negs, g1)"
  shows "length negs \<le> length (pos_rows train)"
proof -
  from neg_rows_of_loop[OF assms] obtain g0
    where "neg_loop L (user_to_articles (pos_rows train)) (set (map article_id train))
             (pos_rows train) g0 [] = Inr (negs, g1)" by blast
  from neg_loop_length[OF this] show ?thesis by simp
qed

lemma neg_rows_of_label:
  assumes "neg_rows_of L train random_state g = Inr (negs, g1)" and "r \<in> set negs"
  shows "label r = 0"
proof -
  from neg_rows_of_loop[OF assms(1)] obtain g0
    where "neg_loop L (user_to_articles (pos_rows train)) (set (map article_id train))
             (pos_rows train) g0 [] = Inr (negs, g1)" by blast
  from neg_loop_labels[OF this assms(2)] show ?thesis by simp
qed

lemma neg_rows_of_article:
  assumes "library_ok L" and "neg_rows_of L train random_state g = Inr (negs, g1)"
    and "r \<in> set negs"
  shows "article_id r \<in> set (map article_id train) \<and>
         article_id r \<notin> article_id ` {t \<in> set train. customer_id t = customer_id r}"
proof -
  have fin: "finite (set (map article_id train))" by simp
  from neg_rows_of_loop[OF assms(2)] obtain g0
    where "neg_loop L (user_to_articles (pos_rows train)) (set (map article_id train))
             (pos_rows train) g0 [] = Inr (negs, g1)" by blast
  from neg_loop_articles[OF assms(1) fin this assms(3)]
  obtain arts where arts: "user_to_articles (pos_rows train) (customer_id r) = Some arts"
    and a: "article_id r \<in> set (map article_id train) - arts" by auto
  from user_to_articles_Some[OF arts] a show ?thesis by simp
qed

lemma balance_unfold:
  assumes "length neg_df \<le> length pos_df"
  shows "balance L random_state pos_df neg_df g =
     (if length neg_df < length pos_df then
        (case df_sample L random_state g (length neg_df) pos_df of
           Inl e \<Rightarrow> Inl e
         | Inr (pos_df', g') \<Rightarrow> Inr (pos_df', neg_df, g'))
      else Inr (pos_df, neg_df, g))"
  using assms by (simp add: balance_def Let_def)

lemma balance_result:
  assumes "library_ok L" and "length neg_df \<le> length pos_df"
    and "balance L random_state pos_df neg_df g = Inr (pos', neg', g2)"
  shows "neg' = neg_df" and "length pos' = length neg_df" and "mset pos' \<subseteq># mset pos_df"
proof -
  have "neg' = neg_df \<and> length pos' = length neg_df \<and> mset pos' \<subseteq># mset pos_df"
  proof (cases "length neg_df < length pos_df")
    case True
    then obtain g' where s: "df_sample L random_state g (length neg_df) pos_df = Inr (pos', g')"
      and "neg' = neg_df"
      using assms(3) unfolding balance_unfold[OF assms(2)]
      by (auto split: sum.splits)
    then show ?thesis using df_sample_result[OF assms(1) s] by simp
  next
    case False
    then have "length pos_df = length neg_df" using assms(2) by simp
    moreover have "pos' = pos_df \<and> neg' = neg_df"
      using False assms(3) unfolding balance_unfold[OF assms(2)] by simp
    ultimately show ?thesis by simp
  qed
  then show "neg' = neg_df" and "length pos' = length neg_df" and "mset pos' \<subseteq># mset pos_df"
    by simp_all
qed

lemma get_labels_decompose:
  assumes "library_ok L"
    and "get_labels_no_coldstart L train random_state g = Inr (out, g3)"
  shows "\<exists>negs g1 pos'.
           neg_rows_of L train random_state g = Inr (negs, g1) \<and>
           length pos' = length negs \<and> mset pos' \<subseteq># mset (pos_rows train) \<and>
           mset out = mset pos' + mset negs"
proof -
  from assms(2) obtain negs g1
    where n: "neg_rows_of L train random_state g = Inr (negs, g1)"
    by (cases "neg_rows_of L train random_state g")
       (auto simp: get_labels_no_coldstart_def)
  from assms(2) n obtain pos' neg' g2
    where b: "balance L random_state (pos_rows train) negs g1 = Inr (pos', neg', g2)"
    by (cases "balance L random_state (pos_rows train) negs g1")
       (auto simp: get_labels_no_coldstart_def)
  note br = balance_result[OF assms(1) neg_rows_of_length[OF n] b]
  have s: "df_sample L random_state g2 (length (pos' @ negs)) (pos' @ negs) = Inr (out, g3)"
    using assms(2) n b br(1) by (simp add: get_labels_no_coldstart_def Let_def)
  have "size (mset out) = size (mset (pos' @ negs))"
    using df_sample_result(1)[OF assms(1) s] by simp
  with df_sample_result(2)[OF assms(1) s] have "mset out = mset (pos' @ negs)"
    by (rule mset_sub_same_size)
  then show ?thesis using n br(2) br(3) by auto
qed

lemma filter_mset_all: "(\<And>x. x \<in># M \<Longrightarrow> P x) \<Longrightarrow> filter_mset P M = M"
  by (induction M) auto

lemma filter_mset_none: "(\<And>x. x \<in># M \<Longrightarrow> \<not> P x) \<Longrightarrow> filter_mset P M = {#}"
  by (induction M) auto

subsection \<open>The labeler on a concrete table\<close>

lemma basket_labels:
  "get_labels_no_coldstart counter_library basket (Some 3) 0 = Inr (basket_out, 5)"
  by code_simp

lemma basket_negatives:
  "neg_rows_of counter_library basket (Some 3) 0 = Inr ([lrow 1 30 0, lrow 1 30 0], 5)"
  by code_simp

lemma unseeded_depends_on_generator:
  "get_labels_no_coldstart counter_library basket None 0 \<noteq>
   get_labels_no_coldstart counter_library basket None 1"
  by code_simp

subsection \<open>Claims about the labeler\<close>

text \<open>
  Claim C2. With library operations that keep their contract, every table that
  \<open>get_labels_no_coldstart\<close> returns, for an input table that is empty or not, has as many
  rows with \<open>label = 1\<close> as rows with \<open>label = 0\<close>. Nothing is duplicated: the positive rows
  returned are a sub-multiset of the input's positive rows, and the negative rows returned
  are exactly the negative rows that were generated.
\<close>

theorem labels_balanced:
  assumes "library_ok L"
    and "get_labels_no_coldstart L train random_state g = Inr (out, g')"
  shows "length (filter (\<lambda>r. label r = 1) out) = length (filter (\<lambda>r. label r = 0) out) \<and>
         mset (filter (\<lambda>r. label r = 1) out) \<subseteq># mset (pos_rows train) \<and>
         (\<exists>neg_df g1. neg_rows_of L train random_state g = Inr (neg_df, g1) \<and>
            mset (filter (\<lambda>r. label r = 0) out) = mset neg_df)"
proof -
  from get_labels_decompose[OF assms]
  obtain negs g1 pos'
    where n: "neg_rows_of L train random_state g = Inr (negs, g1)"
      and len: "length pos' = length negs"
      and sub: "mset pos' \<subseteq># mset (pos_rows train)"
      and ms: "mset out = mset pos' + mset negs" by blast
  have p1: "label x = 1" if "x \<in># mset pos'" for x
    using that set_mset_mono[OF sub] pos_rows_label[of x train] by auto
  have n0: "label x = 0" if "x \<in># mset negs" for x
    using that neg_rows_of_label[OF n, of x] by simp
  have "filter_mset (\<lambda>r. label r = 1) (mset pos') = mset pos'"
    by (rule filter_mset_all) (rule p1)
  moreover have "filter_mset (\<lambda>r. label r = 1) (mset negs) = {#}"
    by (rule filter_mset_none) (simp add: n0)
  ultimately have one: "mset (filter (\<lambda>r. label r = 1) out) = mset pos'"
    by (simp add: ms)
  have "filter_mset (\<lambda>r. label r = 0) (mset pos') = {#}"
    by (rule filter_mset_none) (simp add: p1)
  moreover have "filter_mset (\<lambda>r. label r = 0) (mset negs) = mset negs"
    by (rule filter_mset_all) (rule n0)
  ultimately have zero: "mset (filter (\<lambda>r. label r = 0) out) = mset negs"
    by (simp add: ms)
  have "length (filter (\<lambda>r. label r = 1) out) = length pos'"
    using one by (metis size_mset)
  moreover have "length (filter (\<lambda>r. label r = 0) out) = length negs"
    using zero by (metis size_mset)
  ultimately have "length (filter (\<lambda>r. label r = 1) out) = length (filter (\<lambda>r. label r = 0) out)"
    using len by simp
  then show ?thesis using n one zero sub by auto
qed

theorem labels_balanced_witness:
  "library_ok counter_library \<and>
   get_labels_no_coldstart counter_library basket (Some 3) 0 = Inr (basket_out, 5) \<and>
   length (filter (\<lambda>r. label r = 1) basket_out) = length (filter (\<lambda>r. label r = 0) basket_out) \<and>
   mset (filter (\<lambda>r. label r = 1) basket_out) \<subseteq># mset (pos_rows basket)"
  using labels_balanced[OF counter_library_ok basket_labels] counter_library_ok basket_labels
  by simp

text \<open>
  Claim C6. With library operations that keep their contract, every row of the returned
  table with \<open>label = 0\<close> has an article that occurs in the input table and that is not
  among the articles of the input rows of the same customer.
\<close>

theorem negatives_not_interacted:
  assumes "library_ok L"
    and "get_labels_no_coldstart L train random_state g = Inr (out, g')"
    and "r \<in> set out" and "label r = 0"
  shows "article_id r \<in> set (map article_id train) \<and>
         article_id r \<notin> article_id ` {t \<in> set train. customer_id t = customer_id r}"
proof -
  from get_labels_decompose[OF assms(1) assms(2)]
  obtain negs g1 pos'
    where n: "neg_rows_of L train random_state g = Inr (negs, g1)"
      and sub: "mset pos' \<subseteq># mset (pos_rows train)"
      and ms: "mset out = mset pos' + mset negs" by blast
  have "r \<in># mset out" using assms(3) by simp
  then have "r \<in># mset pos' \<or> r \<in># mset negs" unfolding ms by simp
  moreover have "r \<notin># mset pos'"
  proof
    assume "r \<in># mset pos'"
    then have "r \<in> set (pos_rows train)" using set_mset_mono[OF sub] by auto
    then have "label r = 1" by (rule pos_rows_label)
    then show False using assms(4) by simp
  qed
  ultimately have "r \<in> set negs" by simp
  then show ?thesis by (rule neg_rows_of_article[OF assms(1) n])
qed

theorem negatives_not_interacted_witness:
  "library_ok counter_library \<and>
   get_labels_no_coldstart counter_library basket (Some 3) 0 = Inr (basket_out, 5) \<and>
   lrow 1 30 0 \<in> set basket_out \<and> label (lrow 1 30 0) = 0 \<and>
   article_id (lrow 1 30 0) \<in> set (map article_id basket) \<and>
   article_id (lrow 1 30 0) \<notin>
     article_id ` {t \<in> set basket. customer_id t = customer_id (lrow 1 30 0)}"
proof -
  have mem: "lrow 1 30 0 \<in> set basket_out" by (simp add: basket_out_def)
  have lab: "label (lrow 1 30 0) = 0" by (simp add: lrow_def)
  from negatives_not_interacted[OF counter_library_ok basket_labels mem lab]
  show ?thesis using counter_library_ok basket_labels mem lab by simp
qed

text \<open>
  Claim C7. With a seed, the negative rows generated, the rows any seeded \<open>sample\<close> draws,
  and the whole result (the table, in its row order, and the generator state left behind)
  are the same for every state the global generator was in before the call, whatever the
  library operations are: two calls with the same input and the same seed return the same
  table. \<open>unseeded_depends_on_generator\<close> shows that without a seed they need not.
\<close>

theorem seeded_labels_deterministic:
  "neg_rows_of L train (Some s) g = neg_rows_of L train (Some s) g' \<and>
   (\<forall>n df. map_sum id fst (df_sample L (Some s) g n df) =
            map_sum id fst (df_sample L (Some s) g' n df)) \<and>
   get_labels_no_coldstart L train (Some s) g = get_labels_no_coldstart L train (Some s) g'"
proof (intro conjI allI)
  show draws: "neg_rows_of L train (Some s) g = neg_rows_of L train (Some s) g'"
    by (simp add: neg_rows_of_def)
  show "map_sum id fst (df_sample L (Some s) g n df) =
        map_sum id fst (df_sample L (Some s) g' n df)" for n df
    by (cases "seed_generator L s") (simp_all add: df_sample_def)
  show "get_labels_no_coldstart L train (Some s) g = get_labels_no_coldstart L train (Some s) g'"
    unfolding get_labels_no_coldstart_def draws by (rule refl)
qed

theorem seeded_labels_deterministic_witness:
  "get_labels_no_coldstart counter_library basket (Some 3) 7 = Inr (basket_out, 5)"
  using seeded_labels_deterministic[of counter_library basket 3 7 0] basket_labels by simp

text \<open>
  Claim C10. Whenever the negative rows are generated (the seed, if any, was accepted),
  they are at most as many as the positive rows, so the test \<open>num_pos < num_neg\<close> is
  false, and balancing is the function without that branch: it either samples the positive
  rows down or changes nothing, and always hands the negative rows on unchanged.
\<close>

theorem negatives_never_exceed_positives:
  assumes "neg_rows_of L train random_state g = Inr (neg_df, g1)"
  shows "length neg_df \<le> length (pos_rows train) \<and>
         \<not> length (pos_rows train) < length neg_df \<and>
         balance L random_state (pos_rows train) neg_df g1 =
           (if length neg_df < length (pos_rows train) then
              (case df_sample L random_state g1 (length neg_df) (pos_rows train) of
                 Inl e \<Rightarrow> Inl e
               | Inr (pos_df', g2) \<Rightarrow> Inr (pos_df', neg_df, g2))
            else Inr (pos_rows train, neg_df, g1))"
proof -
  have len: "length neg_df \<le> length (pos_rows train)" by (rule neg_rows_of_length[OF assms])
  from len balance_unfold[OF len, of L random_state g1] show ?thesis by simp
qed

theorem negatives_never_exceed_positives_witness:
  "neg_rows_of counter_library basket (Some 3) 0 = Inr ([lrow 1 30 0, lrow 1 30 0], 5) \<and>
   length [lrow 1 30 0, lrow 1 30 0] \<le> length (pos_rows basket) \<and>
   \<not> length (pos_rows basket) < length [lrow 1 30 0, lrow 1 30 0]"
  using negatives_never_exceed_positives[OF basket_negatives] basket_negatives by blast

end
